theory Spec2Isabelle
  imports Main "HOL-Library.Word"
begin

section \<open>Machine types\<close>

text \<open>
  The scheduler is Arduino C++ (\<^verbatim>\<open>Timer.cpp\<close>). Its integer types are modelled with their
  widths: \<^verbatim>\<open>byte\<close> and \<^verbatim>\<open>uint8_t\<close> are unsigned 8-bit words, \<^verbatim>\<open>int8_t\<close> is an 8-bit
  word read in two's complement (\<open>sint\<close>), \<^verbatim>\<open>unsigned long\<close> is a 32-bit word and
  \<^verbatim>\<open>int\<close> is the 16-bit \<^verbatim>\<open>int\<close> of the AVR targets, read with \<open>sint\<close>. Arithmetic on
  words wraps around, which is what the compiled code does. A pointer (callback or context)
  is an address, \<open>0\<close> being the null pointer.
\<close>

type_synonym byte = "8 word"
type_synonym int8_t = "8 word"
type_synonym c_int = "16 word"
type_synonym ulong = "32 word"
type_synonym pointer = nat

section \<open>Constants and the event record\<close>

text \<open>
  Modelled from the spec: the macros \<^verbatim>\<open>DEFAULT_NUMBER_OF_EVENTS\<close>, \<^verbatim>\<open>NO_TIMER_AVAILABLE\<close> and
  \<^verbatim>\<open>TIMER_NOT_AN_EVENT\<close> of \<^verbatim>\<open>Timer.h\<close>, which is not among the sources. The spec fixes no
  value for them; it says only that the "no timer available" sentinel is negative. They are
  therefore parameters of every operation, collected in one record, and \<open>constants_ok\<close> is
  the one property the spec gives.
\<close>

record constants =
  DEFAULT_NUMBER_OF_EVENTS :: byte
  NO_TIMER_AVAILABLE :: int8_t
  TIMER_NOT_AN_EVENT :: int8_t

definition constants_ok :: "constants \<Rightarrow> bool" where
  "constants_ok K = (sint (NO_TIMER_AVAILABLE K) < 0)"

text \<open>
  Modelled from the spec: the kinds \<^verbatim>\<open>EVENT_NONE\<close>, \<^verbatim>\<open>EVENT_EVERY\<close>, \<^verbatim>\<open>EVENT_OSCILLATE\<close> and
  the class \<^verbatim>\<open>Event\<close> of \<^verbatim>\<open>Event.h\<close>, which is not among the sources. The kinds are the
  spec's enumeration \<^verbatim>\<open>{None, Periodic, Oscillate}\<close>; the fields are those \<^verbatim>\<open>Timer.cpp\<close>
  assigns, each with the type of the value assigned to it.
\<close>

datatype event_kind = EVENT_NONE | EVENT_EVERY | EVENT_OSCILLATE

record Event =
  eventType :: event_kind
  period :: ulong
  repeatCount :: c_int
  pin :: byte
  pinState :: byte
  callback :: pointer
  lastEventTime :: ulong
  count :: c_int
  context_ptr :: pointer

text \<open>
  A slot after \<^verbatim>\<open>memset(_events, EVENT_NONE, ...)\<close>: the spec calls the table
  "zero/None-initialized", so every field is zero and the kind is \<open>EVENT_NONE\<close>.
\<close>

definition Event_cleared :: Event where
  "Event_cleared =
     \<lparr>eventType = EVENT_NONE, period = 0, repeatCount = 0, pin = 0, pinState = 0,
      callback = 0, lastEventTime = 0, count = 0, context_ptr = 0\<rparr>"

section \<open>Heap, faults and effects\<close>

text \<open>
  Reading or writing \<^verbatim>\<open>_events[i]\<close> outside the array is undefined behaviour in C++; the
  model reports it as a fault instead of continuing.
\<close>

datatype fault = OutOfBounds

text \<open>
  The two effects outside the scheduler's own memory: \<^verbatim>\<open>digitalWrite(pin, value)\<close> and
  the call of a callback with its context. \<^verbatim>\<open>millis()\<close> is the argument \<open>now\<close> of each
  operation.
\<close>

datatype effect = DigitalWrite byte byte | Callback pointer pointer

text \<open>
  \<^verbatim>\<open>_events\<close> points either to the function-static array of the default constructor or
  to a heap block. \<^verbatim>\<open>malloc\<close> and \<^verbatim>\<open>free\<close> act on a heap that records the size of every
  block handed out (a block is identified by its position in that list) and the argument
  of every call of \<^verbatim>\<open>free\<close>, in order. Sizes are counted in units of \<^verbatim>\<open>sizeof(Event)\<close>;
  \<^verbatim>\<open>malloc\<close> is taken to succeed.
\<close>

datatype storage = Static_array | Heap_block nat

record heap =
  allocated :: "nat list"
  released :: "storage list"

definition malloc :: "nat \<Rightarrow> heap \<Rightarrow> nat \<times> heap" where
  "malloc sz h = (length (allocated h), h\<lparr>allocated := allocated h @ [sz]\<rparr>)"

definition free :: "storage \<Rightarrow> heap \<Rightarrow> heap" where
  "free p h = h\<lparr>released := released h @ [p]\<rparr>"

section \<open>The scheduler\<close>

text \<open>
  \<open>storage\<close> is where \<^verbatim>\<open>_events\<close> points, \<open>events\<close> is the content of the array it
  points to and \<open>numberOfEvents\<close> is \<^verbatim>\<open>_numberOfEvents\<close>. The development follows one
  scheduler at a time. The array of the default constructor is a single function-static
  object: a second default-constructed scheduler would share it with the first and clear
  it again; that sharing between two objects is not modelled.
\<close>

record Timer =
  storage :: storage
  events :: "Event list"
  numberOfEvents :: byte

definition Timer_default :: "constants \<Rightarrow> Timer" where
  "Timer_default K =
     \<lparr>storage = Static_array,
      events = replicate (unat (DEFAULT_NUMBER_OF_EVENTS K)) Event_cleared,
      numberOfEvents = DEFAULT_NUMBER_OF_EVENTS K\<rparr>"

definition Timer_sized :: "byte \<Rightarrow> heap \<Rightarrow> Timer \<times> heap" where
  "Timer_sized n h =
     (let (b, h') = malloc (unat n) h
      in (\<lparr>storage = Heap_block b, events = replicate (unat n) Event_cleared,
           numberOfEvents = n\<rparr>, h'))"

definition Timer_destroy :: "constants \<Rightarrow> Timer \<Rightarrow> heap \<Rightarrow> heap" where
  "Timer_destroy K t h =
     (if numberOfEvents t \<noteq> DEFAULT_NUMBER_OF_EVENTS K
      then free (storage t) h
      else h)"

text \<open>The array has \<^verbatim>\<open>_numberOfEvents\<close> elements: the invariant of the C++ object.\<close>

definition Timer_ok :: "Timer \<Rightarrow> bool" where
  "Timer_ok t = (length (events t) = unat (numberOfEvents t))"

definition in_bounds :: "Timer \<Rightarrow> int8_t \<Rightarrow> bool" where
  "in_bounds t i = (0 \<le> sint i \<and> nat (sint i) < length (events t))"

definition slot :: "Timer \<Rightarrow> int8_t \<Rightarrow> Event" where
  "slot t i = events t ! nat (sint i)"

definition slot_update :: "Timer \<Rightarrow> int8_t \<Rightarrow> Event \<Rightarrow> Timer" where
  "slot_update t i e = t\<lparr>events := (events t)[nat (sint i) := e]\<rparr>"

text \<open>
  \<^verbatim>\<open>findFreeEventIndex\<close>: the loop variable is an \<^verbatim>\<open>int8_t\<close>, compared with the
  \<^verbatim>\<open>byte\<close> \<^verbatim>\<open>_numberOfEvents\<close> after promotion of both to \<^verbatim>\<open>int\<close>; \<^verbatim>\<open>i++\<close> on 127 gives
  -128.
\<close>

function findFreeEventIndex_from :: "constants \<Rightarrow> Timer \<Rightarrow> int8_t \<Rightarrow> fault + int8_t" where
  "findFreeEventIndex_from K t i =
     (if sint i < uint (numberOfEvents t) then
        (if \<not> in_bounds t i then Inl OutOfBounds
         else if eventType (slot t i) = EVENT_NONE then Inr i
         else findFreeEventIndex_from K t (i + 1))
      else Inr (NO_TIMER_AVAILABLE K))"
  by pat_completeness auto
termination
proof (relation "measure (\<lambda>(K, t, i). 256 - unat i)")
  show "wf (measure (\<lambda>(K, t, i). 256 - unat i))" by simp
next
  fix K :: constants and t :: Timer and i :: int8_t
  assume "\<not> \<not> in_bounds t i"
  then have nonneg: "\<not> sint i < 0" by (simp add: in_bounds_def)
  then have "i \<noteq> - 1" by auto
  then have "1 + i \<noteq> 0" by (simp add: add_eq_0_iff)
  then have "unat (i + 1) = Suc (unat i)"
    using unatSuc [of i] by (simp add: add.commute)
  moreover have "unat i < 256" using unsigned_less [of i, where 'a = nat] by simp
  ultimately show "((K, t, i + 1), (K, t, i)) \<in> measure (\<lambda>(K, t, i). 256 - unat i)"
    by simp
qed

definition findFreeEventIndex :: "constants \<Rightarrow> Timer \<Rightarrow> fault + int8_t" where
  "findFreeEventIndex K t = findFreeEventIndex_from K t 0"

text \<open>
  The registration operations return the index (or the sentinel), the scheduler and the
  effects of the call. \<open>now\<close> is what \<^verbatim>\<open>millis()\<close> returns during the call.
\<close>

definition every ::
  "constants \<Rightarrow> ulong \<Rightarrow> pointer \<Rightarrow> c_int \<Rightarrow> pointer \<Rightarrow> ulong \<Rightarrow> Timer
     \<Rightarrow> fault + (int8_t \<times> Timer \<times> effect list)" where
  "every K per cb rc ctx now t =
     (case findFreeEventIndex K t of
        Inl f \<Rightarrow> Inl f
      | Inr i \<Rightarrow>
          if i = NO_TIMER_AVAILABLE K then Inr (NO_TIMER_AVAILABLE K, t, [])
          else if \<not> in_bounds t i then Inl OutOfBounds
          else Inr (i,
                 slot_update t i
                   ((slot t i)\<lparr>eventType := EVENT_EVERY, period := per, repeatCount := rc,
                      callback := cb, lastEventTime := now, count := 0, context_ptr := ctx\<rparr>),
                 []))"

definition every_forever ::
  "constants \<Rightarrow> ulong \<Rightarrow> pointer \<Rightarrow> pointer \<Rightarrow> ulong \<Rightarrow> Timer
     \<Rightarrow> fault + (int8_t \<times> Timer \<times> effect list)" where
  "every_forever K per cb ctx now t = every K per cb (- 1) ctx now t"

definition after ::
  "constants \<Rightarrow> ulong \<Rightarrow> pointer \<Rightarrow> pointer \<Rightarrow> ulong \<Rightarrow> Timer
     \<Rightarrow> fault + (int8_t \<times> Timer \<times> effect list)" where
  "after K per cb ctx now t = every K per cb 1 ctx now t"

definition oscillate ::
  "constants \<Rightarrow> byte \<Rightarrow> ulong \<Rightarrow> byte \<Rightarrow> c_int \<Rightarrow> ulong \<Rightarrow> Timer
     \<Rightarrow> fault + (int8_t \<times> Timer \<times> effect list)" where
  "oscillate K pn per startingValue rc now t =
     (case findFreeEventIndex K t of
        Inl f \<Rightarrow> Inl f
      | Inr i \<Rightarrow>
          if i = NO_TIMER_AVAILABLE K then Inr (NO_TIMER_AVAILABLE K, t, [])
          else if \<not> in_bounds t i then Inl OutOfBounds
          else Inr (i,
                 slot_update t i
                   ((slot t i)\<lparr>eventType := EVENT_OSCILLATE, pin := pn, period := per,
                      pinState := startingValue, repeatCount := rc * 2,
                      lastEventTime := now, count := 0, context_ptr := 0, callback := 0\<rparr>),
                 [DigitalWrite pn startingValue]))"

definition oscillate_forever ::
  "constants \<Rightarrow> byte \<Rightarrow> ulong \<Rightarrow> byte \<Rightarrow> ulong \<Rightarrow> Timer
     \<Rightarrow> fault + (int8_t \<times> Timer \<times> effect list)" where
  "oscillate_forever K pn per startingValue now t =
     oscillate K pn per startingValue (- 1) now t"

definition pulse ::
  "constants \<Rightarrow> byte \<Rightarrow> ulong \<Rightarrow> byte \<Rightarrow> ulong \<Rightarrow> Timer
     \<Rightarrow> fault + (int8_t \<times> Timer \<times> effect list)" where
  "pulse K pn per startingValue now t = oscillate K pn per startingValue 1 now t"

definition pulseImmediate ::
  "constants \<Rightarrow> byte \<Rightarrow> ulong \<Rightarrow> byte \<Rightarrow> ulong \<Rightarrow> Timer
     \<Rightarrow> fault + (int8_t \<times> Timer \<times> effect list)" where
  "pulseImmediate K pn per pulseValue now t =
     (case oscillate K pn per pulseValue 1 now t of
        Inl f \<Rightarrow> Inl f
      | Inr (i, t', fx) \<Rightarrow>
          if 0 \<le> sint i \<and> sint i < uint (numberOfEvents t') then
            (if \<not> in_bounds t' i then Inl OutOfBounds
             else Inr (i, slot_update t' i ((slot t' i)\<lparr>repeatCount := 1\<rparr>), fx))
          else Inr (i, t', fx))"

definition stop :: "constants \<Rightarrow> int8_t \<Rightarrow> Timer \<Rightarrow> fault + (int8_t \<times> Timer)" where
  "stop K i t =
     (if 0 \<le> sint i \<and> sint i < uint (numberOfEvents t) then
        (if \<not> in_bounds t i then Inl OutOfBounds
         else Inr (TIMER_NOT_AN_EVENT K,
                slot_update t i ((slot t i)\<lparr>eventType := EVENT_NONE\<rparr>)))
      else Inr (i, t))"

section \<open>Dispatch\<close>

text \<open>
  Modelled from the spec: \<^verbatim>\<open>Event::update\<close> of \<^verbatim>\<open>Event.cpp\<close>, which is not among the sources.
  The definitions follow the spec's section "Dispatch" in the order it is printed. The
  elapsed time is \<^verbatim>\<open>now() - lastEventTime\<close> in unsigned arithmetic (step 1). A slot with
  \<^verbatim>\<open>elapsed < period\<close> is left alone (step 2). Otherwise the slot is due (step 3): with a
  repeat count of 0 it is retired without action; with any other repeat count its
  \<^verbatim>\<open>lastEventTime\<close> is set to \<^verbatim>\<open>now()\<close>, it performs its action (the callback, skipped
  when none was set, or the toggled pin), its \<^verbatim>\<open>count\<close> is incremented, and then a positive
  repeat count is decremented, the slot being retired when it reaches 0, while a negative
  one is left as it is.

  \<open>Event_update\<close> is the update of one slot whose callback leaves the scheduler alone: the
  callback is then only an effect. The update inside the table, with callbacks that use the
  scheduler, is \<open>Event_update_in\<close> further down.
\<close>

definition elapsed :: "ulong \<Rightarrow> Event \<Rightarrow> ulong" where
  "elapsed now e = now - lastEventTime e"

definition is_due :: "ulong \<Rightarrow> Event \<Rightarrow> bool" where
  "is_due now e = (\<not> elapsed now e < period e)"

definition toggle :: "byte \<Rightarrow> byte" where
  "toggle s = (if s = 0 then 1 else 0)"

definition fire :: "ulong \<Rightarrow> Event \<Rightarrow> Event \<times> effect list" where
  "fire now e =
     (case eventType e of
        EVENT_EVERY \<Rightarrow>
          (e\<lparr>lastEventTime := now, count := count e + 1\<rparr>,
           if callback e = 0 then [] else [Callback (callback e) (context_ptr e)])
      | EVENT_OSCILLATE \<Rightarrow>
          (e\<lparr>lastEventTime := now, pinState := toggle (pinState e), count := count e + 1\<rparr>,
           [DigitalWrite (pin e) (toggle (pinState e))])
      | EVENT_NONE \<Rightarrow> (e\<lparr>lastEventTime := now\<rparr>, []))"

definition countdown :: "Event \<Rightarrow> Event" where
  "countdown e =
     (if 0 < sint (repeatCount e) then
        (if repeatCount e - 1 = 0
         then e\<lparr>repeatCount := repeatCount e - 1, eventType := EVENT_NONE\<rparr>
         else e\<lparr>repeatCount := repeatCount e - 1\<rparr>)
      else e)"

definition Event_update :: "ulong \<Rightarrow> Event \<Rightarrow> Event \<times> effect list" where
  "Event_update now e =
     (if \<not> is_due now e then (e, [])
      else if repeatCount e = 0 then (e\<lparr>eventType := EVENT_NONE\<rparr>, [])
      else (countdown (fst (fire now e)), snd (fire now e)))"

text \<open>
  \<^verbatim>\<open>Timer::update\<close> when no callback uses the scheduler and the clock does not advance
  during the pass. \<open>update_slot\<close> is the body of its loop; the loop itself has the same
  \<^verbatim>\<open>int8_t\<close> counter as \<^verbatim>\<open>findFreeEventIndex\<close>.
\<close>

definition update_slot :: "ulong \<Rightarrow> Event \<Rightarrow> Event \<times> effect list" where
  "update_slot now e = (if eventType e \<noteq> EVENT_NONE then Event_update now e else (e, []))"

function update_from :: "ulong \<Rightarrow> Timer \<Rightarrow> int8_t \<Rightarrow> fault + (Timer \<times> effect list)" where
  "update_from now t i =
     (if sint i < uint (numberOfEvents t) then
        (if \<not> in_bounds t i then Inl OutOfBounds
         else
           (case update_from now (slot_update t i (fst (update_slot now (slot t i)))) (i + 1) of
              Inl f \<Rightarrow> Inl f
            | Inr (t', fx) \<Rightarrow> Inr (t', snd (update_slot now (slot t i)) @ fx)))
      else Inr (t, []))"
  by pat_completeness auto
termination
proof (relation "measure (\<lambda>(now, t, i). 256 - unat i)")
  show "wf (measure (\<lambda>(now, t, i). 256 - unat i))" by simp
next
  fix now :: ulong and t :: Timer and i :: int8_t
  assume "\<not> \<not> in_bounds t i"
  then have nonneg: "\<not> sint i < 0" by (simp add: in_bounds_def)
  then have "i \<noteq> - 1" by auto
  then have "1 + i \<noteq> 0" by (simp add: add_eq_0_iff)
  then have "unat (i + 1) = Suc (unat i)"
    using unatSuc [of i] by (simp add: add.commute)
  moreover have "unat i < 256" using unsigned_less [of i, where 'a = nat] by simp
  ultimately show
    "((now, slot_update t i (fst (update_slot now (slot t i))), i + 1), (now, t, i))
       \<in> measure (\<lambda>(now, t, i). 256 - unat i)"
    by simp
qed

definition Timer_update :: "ulong \<Rightarrow> Timer \<Rightarrow> fault + (Timer \<times> effect list)" where
  "Timer_update now t = update_from now t 0"

section \<open>Dispatch with callbacks that use the scheduler\<close>

text \<open>
  A callback runs inline in \<^verbatim>\<open>update()\<close> and may itself call \<^verbatim>\<open>every\<close>, \<^verbatim>\<open>stop\<close> and the other
  operations (spec, section 5). \<open>callbacks\<close> gives, for the address of a function and a
  context, what the call does to the scheduler, or the fault it runs into. Each slot's
  update reads the clock itself: \<open>clock i\<close> is what \<^verbatim>\<open>millis()\<close> returns when slot \<open>i\<close> is
  updated.

  Modelled from the spec: \<^verbatim>\<open>Event::update\<close> on the slot \<open>i\<close> of the table, in the printed order
  of the spec's section "Dispatch" as above. The callback sees the table with the slot's
  \<^verbatim>\<open>lastEventTime\<close> already set; the count and the repeat count are then taken from the slot
  as the callback left it.
\<close>

type_synonym callbacks = "pointer \<Rightarrow> pointer \<Rightarrow> Timer \<Rightarrow> fault + Timer"

definition invoke :: "callbacks \<Rightarrow> Event \<Rightarrow> Timer \<Rightarrow> fault + (Timer \<times> effect list)" where
  "invoke cbs e t =
     (if callback e = 0 then Inr (t, [])
      else (case cbs (callback e) (context_ptr e) t of
              Inl f \<Rightarrow> Inl f
            | Inr t' \<Rightarrow> Inr (t', [Callback (callback e) (context_ptr e)])))"

definition Event_update_in ::
  "callbacks \<Rightarrow> ulong \<Rightarrow> Timer \<Rightarrow> int8_t \<Rightarrow> fault + (Timer \<times> effect list)" where
  "Event_update_in cbs now t i =
     (if \<not> is_due now (slot t i) then Inr (t, [])
      else if repeatCount (slot t i) = 0
        then Inr (slot_update t i ((slot t i)\<lparr>eventType := EVENT_NONE\<rparr>), [])
      else (case eventType (slot t i) of
              EVENT_EVERY \<Rightarrow>
                (case invoke cbs (slot t i) (slot_update t i ((slot t i)\<lparr>lastEventTime := now\<rparr>)) of
                   Inl f \<Rightarrow> Inl f
                 | Inr (t1, fx) \<Rightarrow>
                     if \<not> in_bounds t1 i then Inl OutOfBounds
                     else Inr (slot_update t1 i
                                 (countdown ((slot t1 i)\<lparr>count := count (slot t1 i) + 1\<rparr>)), fx))
            | EVENT_OSCILLATE \<Rightarrow>
                Inr (slot_update t i
                       (countdown ((slot t i)\<lparr>lastEventTime := now,
                          pinState := toggle (pinState (slot t i)),
                          count := count (slot t i) + 1\<rparr>)),
                     [DigitalWrite (pin (slot t i)) (toggle (pinState (slot t i)))])
            | EVENT_NONE \<Rightarrow>
                Inr (slot_update t i (countdown ((slot t i)\<lparr>lastEventTime := now\<rparr>)), [])))"





section \<open>Sequences of registrations\<close>

text \<open>
  A client's request to one of the seven registration entry points, and a client that
  issues a list of requests, each at its own clock value, collecting the returned values.
\<close>

datatype registration =
    Every ulong pointer c_int pointer
  | Every_forever ulong pointer pointer
  | After ulong pointer pointer
  | Oscillate byte ulong byte c_int
  | Oscillate_forever byte ulong byte
  | Pulse byte ulong byte
  | PulseImmediate byte ulong byte

fun register ::
  "constants \<Rightarrow> registration \<Rightarrow> ulong \<Rightarrow> Timer \<Rightarrow> fault + (int8_t \<times> Timer \<times> effect list)" where
  "register K (Every per cb rc ctx) now t = every K per cb rc ctx now t"
| "register K (Every_forever per cb ctx) now t = every_forever K per cb ctx now t"
| "register K (After per cb ctx) now t = after K per cb ctx now t"
| "register K (Oscillate pn per v rc) now t = oscillate K pn per v rc now t"
| "register K (Oscillate_forever pn per v) now t = oscillate_forever K pn per v now t"
| "register K (Pulse pn per v) now t = pulse K pn per v now t"
| "register K (PulseImmediate pn per v) now t = pulseImmediate K pn per v now t"

fun register_all ::
  "constants \<Rightarrow> (ulong \<times> registration) list \<Rightarrow> Timer
     \<Rightarrow> fault + (int8_t list \<times> Timer \<times> effect list)" where
  "register_all K [] t = Inr ([], t, [])"
| "register_all K ((now, r) # rs) t =
     (case register K r now t of
        Inl f \<Rightarrow> Inl f
      | Inr (i, t1, fx1) \<Rightarrow>
          (case register_all K rs t1 of
             Inl f \<Rightarrow> Inl f
           | Inr (ids, t2, fx2) \<Rightarrow> Inr (i # ids, t2, fx1 @ fx2)))"

text \<open>
  A slot is occupied when its kind is not \<open>EVENT_NONE\<close>. \<open>filled k t\<close>: the table has its
  declared size, its first \<open>k\<close> slots are occupied and the others are free. A fresh
  scheduler, as both constructors leave it, is \<open>filled 0\<close>.
\<close>

definition occupied :: "Event \<Rightarrow> bool" where
  "occupied e = (eventType e \<noteq> EVENT_NONE)"

definition filled :: "nat \<Rightarrow> Timer \<Rightarrow> bool" where
  "filled k t =
     (Timer_ok t \<and> k \<le> length (events t) \<and> list_all occupied (take k (events t))
      \<and> list_all (\<lambda>e. \<not> occupied e) (drop k (events t)))"

definition fresh :: "Timer \<Rightarrow> bool" where
  "fresh t = filled 0 t"

section \<open>Concrete values for the examples\<close>

definition K0 :: constants where
  "K0 = \<lparr>DEFAULT_NUMBER_OF_EVENTS = 10, NO_TIMER_AVAILABLE = - 1, TIMER_NOT_AN_EVENT = - 2\<rparr>"

definition heap0 :: heap where
  "heap0 = \<lparr>allocated = [], released = []\<rparr>"

text \<open>
  A two-slot scheduler whose slot 0 holds an unbounded periodic timer, a two-slot scheduler
  with both slots taken, and a scheduler of capacity 128 with every slot taken by an
  unbounded periodic timer.
\<close>

definition Event_periodic :: Event where
  "Event_periodic = Event_cleared\<lparr>eventType := EVENT_EVERY, period := 1000, repeatCount := - 1,
     callback := 7\<rparr>"

definition Timer_busy :: Timer where
  "Timer_busy = \<lparr>storage = Heap_block 0, events = [Event_periodic, Event_cleared],
     numberOfEvents = 2\<rparr>"

definition Timer_full :: Timer where
  "Timer_full = \<lparr>storage = Heap_block 0, events = [Event_periodic, Event_periodic],
     numberOfEvents = 2\<rparr>"

definition Timer_full_128 :: Timer where
  "Timer_full_128 = \<lparr>storage = Heap_block 0, events = replicate 128 Event_periodic,
     numberOfEvents = 128\<rparr>"



definition Timer_near_wrap :: Timer where
  "Timer_near_wrap = \<lparr>storage = Heap_block 0,
     events = [Event_periodic\<lparr>period := 256, lastEventTime := 4294967040\<rparr>],
     numberOfEvents = 1\<rparr>"




section \<open>Index arithmetic\<close>

text \<open>
  The two loops are unfolded by hand, one iteration at a time, so their defining equations
  are taken out of the simplifier's rules. An index \<open>k < 128\<close> is the \<^verbatim>\<open>int8_t\<close> value
  \<open>word_of_nat k\<close>; the next value after 127 is -128.
\<close>

declare findFreeEventIndex_from.simps [simp del]
declare update_from.simps [simp del]

lemma sint_index: "k < 128 \<Longrightarrow> sint (word_of_nat k :: int8_t) = int k"
  by (simp add: signed_of_nat signed_take_bit_int_eq_self)

lemma sint_index_wrapped: "sint (word_of_nat 128 :: int8_t) = - 128"
  by simp

lemma index_Suc: "(word_of_nat k :: int8_t) + 1 = word_of_nat (Suc k)"
  by simp

lemma in_bounds_index: "k < 128 \<Longrightarrow> in_bounds t (word_of_nat k) = (k < length (events t))"
  by (simp add: in_bounds_def sint_index)

lemma slot_index: "k < 128 \<Longrightarrow> slot t (word_of_nat k) = events t ! k"
  by (simp add: slot_def sint_index)

lemma slot_update_index:
  "k < 128 \<Longrightarrow> slot_update t (word_of_nat k) e = t\<lparr>events := (events t)[k := e]\<rparr>"
  by (simp add: slot_update_def sint_index)

lemma int_less_uint: "k < unat (n :: byte) \<Longrightarrow> int k < uint n"
proof -
  assume "k < unat n"
  then have "int k < int (unat n)" by (simp only: of_nat_less_iff)
  then show ?thesis by simp
qed

lemma in_range_in_bounds:
  assumes "Timer_ok t" and "0 \<le> sint i" and "sint i < uint (numberOfEvents t)"
  shows "in_bounds t i"
proof -
  have "nat (sint i) < unat (numberOfEvents t)"
    using assms(2,3) by (simp add: nat_less_iff)
  then show ?thesis using assms(1,2) by (simp add: in_bounds_def Timer_ok_def)
qed

lemma slot_slot_update: "in_bounds t i \<Longrightarrow> slot (slot_update t i e) i = e"
  by (simp add: slot_def slot_update_def in_bounds_def)

lemma index_not_sentinel:
  "constants_ok K \<Longrightarrow> k < 128 \<Longrightarrow> (word_of_nat k :: int8_t) \<noteq> NO_TIMER_AVAILABLE K"
proof
  assume ok: "constants_ok K" and k: "k < 128" and eq: "word_of_nat k = NO_TIMER_AVAILABLE K"
  have "sint (NO_TIMER_AVAILABLE K) = int k"
    using sint_index [OF k] by (simp only: eq)
  then show False using ok by (simp add: constants_ok_def)
qed

lemma K0_ok: "constants_ok K0"
  by (simp add: constants_ok_def K0_def)

section \<open>The scan for a free slot\<close>

lemma scan_occupied_prefix:
  "k \<le> unat (numberOfEvents t) \<Longrightarrow> k \<le> 128 \<Longrightarrow> k \<le> length (events t) \<Longrightarrow>
   list_all occupied (take k (events t)) \<Longrightarrow>
   findFreeEventIndex K t = findFreeEventIndex_from K t (word_of_nat k)"
proof (induction k)
  case 0
  show ?case by (simp add: findFreeEventIndex_def)
next
  case (Suc k)
  have k: "k < 128" "k < length (events t)" "k < unat (numberOfEvents t)"
    using Suc.prems by simp_all
  have lt: "int k < uint (numberOfEvents t)"
    using k(3) by (rule int_less_uint)
  have occ: "occupied (events t ! k)"
    using Suc.prems(4) k(2) by (simp add: list_all_length)
  have "list_all occupied (take k (events t))"
    using Suc.prems(4) by (simp add: list_all_length)
  then have "findFreeEventIndex K t = findFreeEventIndex_from K t (word_of_nat k)"
    using Suc.IH k by simp
  also have "\<dots> = findFreeEventIndex_from K t (word_of_nat k + 1)"
    using k occ lt
    by (subst findFreeEventIndex_from.simps)
       (simp add: sint_index in_bounds_index slot_index occupied_def)
  finally show ?case by (simp only: index_Suc)
qed

lemma filled_length: "filled k t \<Longrightarrow> length (events t) = unat (numberOfEvents t)"
  by (simp add: filled_def Timer_ok_def)

lemma filled_free_at: "filled k t \<Longrightarrow> k < length (events t) \<Longrightarrow> eventType (events t ! k) = EVENT_NONE"
  by (auto simp: filled_def list_all_length occupied_def dest: spec [of _ 0])

lemma find_lowest:
  assumes "filled k t" and "k < unat (numberOfEvents t)" and "k < 128"
  shows "findFreeEventIndex K t = Inr (word_of_nat k)"
proof -
  have len: "k < length (events t)" using assms by (simp add: filled_length)
  have "findFreeEventIndex K t = findFreeEventIndex_from K t (word_of_nat k)"
    using assms len by (intro scan_occupied_prefix) (simp_all add: filled_def)
  also have "\<dots> = Inr (word_of_nat k)"
    using assms(3) len int_less_uint [OF assms(2)] filled_free_at [OF assms(1) len]
    by (subst findFreeEventIndex_from.simps)
       (simp add: sint_index in_bounds_index slot_index)
  finally show ?thesis .
qed

lemma find_full:
  assumes "filled (unat (numberOfEvents t)) t" and "unat (numberOfEvents t) \<le> 127"
  shows "findFreeEventIndex K t = Inr (NO_TIMER_AVAILABLE K)"
proof -
  let ?n = "unat (numberOfEvents t)"
  have "findFreeEventIndex K t = findFreeEventIndex_from K t (word_of_nat ?n)"
    using assms by (intro scan_occupied_prefix) (simp_all add: filled_def)
  moreover have "sint (word_of_nat ?n :: int8_t) = int ?n"
    using assms(2) by (intro sint_index) simp
  moreover have "\<not> int ?n < uint (numberOfEvents t)" by simp
  ultimately show ?thesis
    by (simp only: findFreeEventIndex_from.simps [of K t "word_of_nat ?n"] if_False)
qed

lemma find_wrap:
  assumes "128 \<le> unat (numberOfEvents t)" and "128 \<le> length (events t)"
    and "list_all occupied (take 128 (events t))"
  shows "findFreeEventIndex K t = Inl OutOfBounds"
proof -
  have "findFreeEventIndex K t = findFreeEventIndex_from K t (word_of_nat 128)"
    using assms by (intro scan_occupied_prefix) simp_all
  moreover have "sint (word_of_nat 128 :: int8_t) < uint (numberOfEvents t)"
    by (rule less_le_trans [of _ 0]) simp_all
  moreover have "\<not> in_bounds t (word_of_nat 128)"
    by (simp add: in_bounds_def)
  ultimately show ?thesis
    by (simp only: findFreeEventIndex_from.simps [of K t "word_of_nat 128"] if_True if_False simp_thms)
qed

lemma scan_result_free:
  "findFreeEventIndex_from K t j = Inr i \<Longrightarrow> i \<noteq> NO_TIMER_AVAILABLE K \<Longrightarrow>
   eventType (slot t i) = EVENT_NONE"
proof (induction K t j rule: findFreeEventIndex_from.induct)
  case (1 K t j)
  from "1.prems" show ?case
    by (subst (asm) findFreeEventIndex_from.simps) (auto split: if_splits intro: "1.IH")
qed

lemma scan_result_below_capacity:
  "findFreeEventIndex_from K t j = Inr i \<Longrightarrow> i \<noteq> NO_TIMER_AVAILABLE K \<Longrightarrow>
   sint i < uint (numberOfEvents t)"
proof (induction K t j rule: findFreeEventIndex_from.induct)
  case (1 K t j)
  from "1.prems" show ?case
    by (subst (asm) findFreeEventIndex_from.simps) (auto split: if_splits intro: "1.IH")
qed

lemma filled_claim:
  assumes "filled k t" and "k < length (events t)" and "occupied e"
  shows "filled (Suc k) (t\<lparr>events := (events t)[k := e]\<rparr>)"
proof -
  have "list_all occupied (take (Suc k) ((events t)[k := e]))"
    using assms by (auto simp: filled_def list_all_length nth_list_update)
  moreover have "list_all (\<lambda>e. \<not> occupied e) (drop (Suc k) ((events t)[k := e]))"
  proof -
    have "list_all (\<lambda>e. \<not> occupied e) (events t ! k # drop (Suc k) (events t))"
      using assms by (simp add: filled_def Cons_nth_drop_Suc)
    then show ?thesis by simp
  qed
  ultimately show ?thesis
    using assms by (simp add: filled_def Timer_ok_def)
qed

section \<open>Construction and destruction\<close>

lemma Timer_sized_fresh: "fresh (fst (Timer_sized n h))"
  by (simp add: fresh_def filled_def Timer_ok_def Timer_sized_def malloc_def list_all_length
      occupied_def Event_cleared_def)

lemma Timer_default_fresh: "fresh (Timer_default K)"
  by (simp add: fresh_def filled_def Timer_ok_def Timer_default_def list_all_length
      occupied_def Event_cleared_def)

lemma Timer_sized_capacity: "numberOfEvents (fst (Timer_sized n h)) = n"
  by (simp add: Timer_sized_def malloc_def)

lemma Timer_default_releases_nothing: "Timer_destroy K (Timer_default K) h = h"
  by (simp add: Timer_destroy_def Timer_default_def)

lemma Timer_sized_released_once:
  "n \<noteq> DEFAULT_NUMBER_OF_EVENTS K \<Longrightarrow>
   released (Timer_destroy K (fst (Timer_sized n h)) (snd (Timer_sized n h)))
     = released h @ [Heap_block (length (allocated h))]
   \<and> storage (fst (Timer_sized n h)) = Heap_block (length (allocated h))"
  by (simp add: Timer_destroy_def Timer_sized_def malloc_def free_def)

text \<open>
  Claim C9. A scheduler built with the sized constructor owns a heap block, which the
  destructor should release once. The destructor decides by comparing the capacity with
  \<^verbatim>\<open>DEFAULT_NUMBER_OF_EVENTS\<close>, so for a sized scheduler of exactly that capacity it releases
  nothing: the block handed out by \<^verbatim>\<open>malloc\<close> is still allocated and \<^verbatim>\<open>free\<close> has not been
  called. (For any other capacity the block is released once, and a default-constructed
  scheduler releases nothing: the two lemmas above.)
\<close>

theorem Timer_sized_default_capacity_leaks:
  "storage (fst (Timer_sized (DEFAULT_NUMBER_OF_EVENTS K) h)) = Heap_block (length (allocated h))
   \<and> allocated (snd (Timer_sized (DEFAULT_NUMBER_OF_EVENTS K) h))
       = allocated h @ [unat (DEFAULT_NUMBER_OF_EVENTS K)]
   \<and> Timer_destroy K (fst (Timer_sized (DEFAULT_NUMBER_OF_EVENTS K) h))
        (snd (Timer_sized (DEFAULT_NUMBER_OF_EVENTS K) h))
       = snd (Timer_sized (DEFAULT_NUMBER_OF_EVENTS K) h)
   \<and> released (snd (Timer_sized (DEFAULT_NUMBER_OF_EVENTS K) h)) = released h"
  by (simp add: Timer_destroy_def Timer_sized_def malloc_def)

lemma Timer_sized_10_leaks:
  "Timer_destroy K0 (fst (Timer_sized 10 heap0)) (snd (Timer_sized 10 heap0))
     = \<lparr>allocated = [10], released = []\<rparr>"
  by (simp add: Timer_destroy_def Timer_sized_def malloc_def K0_def heap0_def)

section \<open>Registration\<close>

lemma every_claims:
  assumes "constants_ok K" and "filled k t" and "k < unat (numberOfEvents t)" and "k < 128"
  shows "every K per cb rc ctx now t =
     Inr (word_of_nat k,
          t\<lparr>events := (events t)[k := (events t ! k)\<lparr>eventType := EVENT_EVERY, period := per,
             repeatCount := rc, callback := cb, lastEventTime := now, count := 0,
             context_ptr := ctx\<rparr>]\<rparr>, [])"
  using assms
  by (simp add: every_def find_lowest index_not_sentinel in_bounds_index slot_index
      slot_update_index filled_length)

lemma oscillate_claims:
  assumes "constants_ok K" and "filled k t" and "k < unat (numberOfEvents t)" and "k < 128"
  shows "oscillate K pn per v rc now t =
     Inr (word_of_nat k,
          t\<lparr>events := (events t)[k := (events t ! k)\<lparr>eventType := EVENT_OSCILLATE, pin := pn,
             period := per, pinState := v, repeatCount := rc * 2, lastEventTime := now,
             count := 0, context_ptr := 0, callback := 0\<rparr>]\<rparr>, [DigitalWrite pn v])"
  using assms
  by (simp add: oscillate_def find_lowest index_not_sentinel in_bounds_index slot_index
      slot_update_index filled_length)

lemma pulseImmediate_claims:
  assumes "constants_ok K" and "filled k t" and "k < unat (numberOfEvents t)" and "k < 128"
  shows "pulseImmediate K pn per v now t =
     Inr (word_of_nat k,
          t\<lparr>events := (events t)[k := (events t ! k)\<lparr>eventType := EVENT_OSCILLATE, pin := pn,
             period := per, pinState := v, lastEventTime := now, count := 0,
             context_ptr := 0, callback := 0, repeatCount := 1\<rparr>]\<rparr>, [DigitalWrite pn v])"
  using assms int_less_uint [OF assms(3)]
  by (simp add: pulseImmediate_def oscillate_claims sint_index in_bounds_index slot_index
      slot_update_index filled_length)

lemma register_claims:
  assumes "constants_ok K" and "filled k t" and "k < unat (numberOfEvents t)" and "k < 128"
  shows "\<exists>t' fx. register K r now t = Inr (word_of_nat k, t', fx) \<and> filled (Suc k) t'
           \<and> numberOfEvents t' = numberOfEvents t"
proof -
  have len: "k < length (events t)" using assms by (simp add: filled_length)
  show ?thesis
    using assms
    by (cases r)
       (simp_all add: every_forever_def after_def oscillate_forever_def pulse_def
          every_claims oscillate_claims pulseImmediate_claims
          filled_claim [OF assms(2) len] occupied_def)
qed

lemma double_in_range:
  "- 16384 \<le> sint (rc :: c_int) \<Longrightarrow> sint rc < 16384 \<Longrightarrow> sint (rc * 2) = 2 * sint rc"
  by (simp add: sint_word_ariths signed_take_bit_int_eq_self)

lemma oscillate_slot:
  assumes "oscillate K pn per v rc now t = Inr (i, t', fx)" and "i \<noteq> NO_TIMER_AVAILABLE K"
  shows "findFreeEventIndex K t = Inr i \<and> in_bounds t i \<and> in_bounds t' i
       \<and> numberOfEvents t' = numberOfEvents t
       \<and> fx = [DigitalWrite pn v]
       \<and> slot t' i = (slot t i)\<lparr>eventType := EVENT_OSCILLATE, pin := pn, period := per,
            pinState := v, repeatCount := rc * 2, lastEventTime := now, count := 0,
            context_ptr := 0, callback := 0\<rparr>"
proof -
  from assms obtain b: "in_bounds t i"
    and free: "findFreeEventIndex K t = Inr i"
    and t': "t' = slot_update t i
               ((slot t i)\<lparr>eventType := EVENT_OSCILLATE, pin := pn, period := per,
                  pinState := v, repeatCount := rc * 2,
                  lastEventTime := now, count := 0, context_ptr := 0, callback := 0\<rparr>)"
    and fx: "fx = [DigitalWrite pn v]"
    by (auto simp: oscillate_def split: sum.splits if_splits)
  have b': "in_bounds t' i" using b by (simp add: t' in_bounds_def slot_update_def)
  have n: "numberOfEvents t' = numberOfEvents t" by (simp add: t' slot_update_def)
  have "slot t' i = (slot t i)\<lparr>eventType := EVENT_OSCILLATE, pin := pn, period := per,
            pinState := v, repeatCount := rc * 2, lastEventTime := now, count := 0,
            context_ptr := 0, callback := 0\<rparr>"
    by (simp only: t' slot_slot_update [OF b])
  then show ?thesis
    using b b' n free fx by simp
qed

text \<open>
  Claim C3. Every call of \<^verbatim>\<open>oscillate(pin, period, startingValue, repeatCount)\<close> that returns
  an index has written \<open>startingValue\<close> to the pin (its only effect outside the table),
  and the claimed slot, free before, now has kind \<open>EVENT_OSCILLATE\<close>, the given pin and
  period, \<open>pinState = startingValue\<close> and the repeat count \<open>repeatCount * 2\<close>. The product
  is that of the 16-bit \<^verbatim>\<open>int\<close>; it is twice the integer \<open>repeatCount\<close> whenever that is
  representable.
\<close>

theorem oscillate_registers:
  assumes "oscillate K pn per startingValue rc now t = Inr (i, t', fx)"
    and "i \<noteq> NO_TIMER_AVAILABLE K"
  shows "fx = [DigitalWrite pn startingValue]
       \<and> eventType (slot t i) = EVENT_NONE
       \<and> eventType (slot t' i) = EVENT_OSCILLATE
       \<and> pin (slot t' i) = pn
       \<and> pinState (slot t' i) = startingValue
       \<and> period (slot t' i) = per
       \<and> lastEventTime (slot t' i) = now
       \<and> repeatCount (slot t' i) = rc * 2
       \<and> (- 16384 \<le> sint rc \<and> sint rc < 16384 \<longrightarrow>
            sint (repeatCount (slot t' i)) = 2 * sint rc)"
proof -
  note s = oscillate_slot [OF assms]
  have was_free: "eventType (slot t i) = EVENT_NONE"
    using s assms(2) scan_result_free [of K t 0 i] by (simp add: findFreeEventIndex_def)
  show ?thesis
    using s was_free by (simp add: double_in_range)
qed

theorem oscillate_registers_witness:
  "\<exists>t'. oscillate K0 13 500 1 3 0 Timer_busy = Inr (1, t', [DigitalWrite 13 1])
      \<and> (1 :: int8_t) \<noteq> NO_TIMER_AVAILABLE K0
      \<and> eventType (slot t' 1) = EVENT_OSCILLATE \<and> pin (slot t' 1) = 13
      \<and> pinState (slot t' 1) = 1 \<and> period (slot t' 1) = 500
      \<and> repeatCount (slot t' 1) = 6 \<and> sint (repeatCount (slot t' 1)) = 6"
proof -
  have f: "filled 1 Timer_busy"
    by (simp add: filled_def Timer_ok_def Timer_busy_def occupied_def Event_periodic_def
        Event_cleared_def)
  have n: "1 < unat (numberOfEvents Timer_busy)" by (simp add: Timer_busy_def)
  obtain t' where call: "oscillate K0 13 500 1 3 0 Timer_busy = Inr (1, t', [DigitalWrite 13 1])"
    using oscillate_claims [OF K0_ok f n, of 13 500 1 3 0] by simp
  have ns: "(1 :: int8_t) \<noteq> NO_TIMER_AVAILABLE K0" by (simp add: K0_def)
  show ?thesis
    using oscillate_registers [OF call ns] call ns by simp
qed

text \<open>
  Claim C5. For every pin, period and starting value, \<^verbatim>\<open>pulse(pin, period, startingValue)\<close>
  returns the same result, leaves the same scheduler and writes the pin in the same way as
  \<^verbatim>\<open>oscillate(pin, period, startingValue, 1)\<close>; a fault of one is a fault of the other.
\<close>

theorem pulse_is_oscillate_once:
  "pulse K pn per startingValue now t = oscillate K pn per startingValue 1 now t"
  by (simp add: pulse_def)

text \<open>
  Claim C6. The three-argument \<^verbatim>\<open>every(period, callback, context)\<close> is
  \<^verbatim>\<open>every(period, callback, -1, context)\<close>, and \<^verbatim>\<open>after(period, callback, context)\<close> is
  \<^verbatim>\<open>every(period, callback, 1, context)\<close>: same returned value, same resulting scheduler,
  same effects.
\<close>

theorem every_forever_and_after:
  "every_forever K per cb ctx now t = every K per cb (- 1) ctx now t
   \<and> after K per cb ctx now t = every K per cb 1 ctx now t"
  by (simp add: every_forever_def after_def)

section \<open>Filling the table\<close>

lemma register_all_fills:
  assumes "constants_ok K"
  shows "filled k t \<Longrightarrow> k + length rs \<le> unat (numberOfEvents t) \<Longrightarrow> k + length rs \<le> 128 \<Longrightarrow>
         \<exists>t' fx. register_all K rs t = Inr (map word_of_nat [k..<k + length rs], t', fx)
           \<and> filled (k + length rs) t' \<and> numberOfEvents t' = numberOfEvents t"
proof (induction rs arbitrary: k t)
  case Nil
  then show ?case by simp
next
  case (Cons x rs)
  obtain now r where x: "x = (now, r)" by (cases x)
  have k: "k < unat (numberOfEvents t)" "k < 128" using Cons.prems by simp_all
  obtain t1 fx1 where step: "register K r now t = Inr (word_of_nat k, t1, fx1)"
    and f1: "filled (Suc k) t1" and n1: "numberOfEvents t1 = numberOfEvents t"
    using register_claims [OF assms Cons.prems(1) k] by blast
  have "\<exists>t' fx. register_all K rs t1 = Inr (map word_of_nat [Suc k..<Suc k + length rs], t', fx)
           \<and> filled (Suc k + length rs) t' \<and> numberOfEvents t' = numberOfEvents t1"
    using Cons.prems by (intro Cons.IH [OF f1]) (simp_all add: n1)
  then obtain t' fx where rest:
      "register_all K rs t1 = Inr (map word_of_nat [Suc k..<Suc k + length rs], t', fx)"
    and f': "filled (Suc k + length rs) t'" and n': "numberOfEvents t' = numberOfEvents t1"
    by blast
  have "[k..<k + length (x # rs)] = k # [Suc k..<Suc k + length rs]"
    using upt_conv_Cons [of k "k + Suc (length rs)"] by simp
  then show ?case
    using step rest f' n' n1 by (simp add: x)
qed

lemma register_exhausted:
  assumes "constants_ok K" and "filled (unat (numberOfEvents t)) t"
    and "unat (numberOfEvents t) \<le> 127"
  shows "register K r now t = Inr (NO_TIMER_AVAILABLE K, t, [])"
  using assms(1) find_full [OF assms(2,3), of K]
  by (cases r)
     (simp_all add: every_forever_def after_def oscillate_forever_def pulse_def
        pulseImmediate_def every_def oscillate_def constants_ok_def)

lemma register_wraps:
  assumes "filled 128 t" and "128 \<le> unat (numberOfEvents t)"
  shows "register K r now t = Inl OutOfBounds"
proof -
  have "findFreeEventIndex K t = Inl OutOfBounds"
    using assms by (intro find_wrap) (simp_all add: filled_def)
  then show ?thesis
    by (cases r)
       (simp_all add: every_forever_def after_def oscillate_forever_def pulse_def
          pulseImmediate_def every_def oscillate_def)
qed

lemma register_all_wraps:
  assumes "constants_ok K"
  shows "filled k t \<Longrightarrow> k \<le> 128 \<Longrightarrow> 128 \<le> unat (numberOfEvents t) \<Longrightarrow>
         128 < k + length rs \<Longrightarrow> register_all K rs t = Inl OutOfBounds"
proof (induction rs arbitrary: k t)
  case Nil
  then show ?case by simp
next
  case (Cons x rs)
  obtain now r where x: "x = (now, r)" by (cases x)
  show ?case
  proof (cases "k = 128")
    case True
    then have "register K r now t = Inl OutOfBounds"
      using Cons.prems by (intro register_wraps) simp_all
    then show ?thesis by (simp add: x)
  next
    case False
    then have k: "k < unat (numberOfEvents t)" "k < 128" using Cons.prems by simp_all
    obtain t1 fx1 where step: "register K r now t = Inr (word_of_nat k, t1, fx1)"
      and f1: "filled (Suc k) t1" and n1: "numberOfEvents t1 = numberOfEvents t"
      using register_claims [OF assms Cons.prems(1) k] by blast
    have "register_all K rs t1 = Inl OutOfBounds"
      using Cons.prems k by (intro Cons.IH [OF f1]) (simp_all add: n1)
    then show ?thesis using step by (simp add: x)
  qed
qed

lemma distinct_indices:
  "m \<le> 128 \<Longrightarrow> distinct (map word_of_nat [0..<m] :: int8_t list)"
proof -
  assume m: "m \<le> 128"
  have "inj_on (word_of_nat :: nat \<Rightarrow> int8_t) {0..<m}"
  proof (rule inj_onI)
    fix a b assume a: "a \<in> {0..<m}" and b: "b \<in> {0..<m}"
      and eq: "(word_of_nat a :: int8_t) = word_of_nat b"
    have sa: "sint (word_of_nat a :: int8_t) = int a"
      using a m by (intro sint_index) simp
    have sb: "sint (word_of_nat b :: int8_t) = int b"
      using b m by (intro sint_index) simp
    have "int a = int b" using sa sb by (simp only: eq)
    then show "a = b" by (simp only: of_nat_eq_iff)
  qed
  then show ?thesis by (simp add: distinct_map)
qed

text \<open>
  Where the capacity is at most 127 the registrations behave as the spec says. On a fresh
  scheduler (all slots free, as both constructors leave it) of capacity \<open>N\<close>, any sequence
  of at most \<open>N\<close> and at most 128 registrations, with no stop or retirement between them,
  succeeds and returns the indices \<open>0, 1, 2, ...\<close> in this order: each registration claims
  the lowest free slot, so that afterwards exactly the first slots are occupied, and the
  indices are pairwise distinct and lie in \<open>[0, N-1]\<close>. If moreover \<open>N \<le> 127\<close>, then after
  \<open>N\<close> registrations every further registration returns \<^verbatim>\<open>NO_TIMER_AVAILABLE\<close> and leaves
  the scheduler unchanged, with no effect.
\<close>

lemma registrations_claim_lowest_slots:
  assumes "constants_ok K" and "fresh t"
    and "length rs \<le> unat (numberOfEvents t)" and "length rs \<le> 128"
  shows "\<exists>ids t' fx.
           register_all K rs t = Inr (ids, t', fx)
         \<and> ids = map word_of_nat [0..<length rs]
         \<and> filled (length rs) t'
         \<and> distinct ids
         \<and> (\<forall>i \<in> set ids. 0 \<le> sint i \<and> sint i < uint (numberOfEvents t))
         \<and> (length rs = unat (numberOfEvents t) \<and> length rs \<le> 127 \<longrightarrow>
              (\<forall>r now. register K r now t' = Inr (NO_TIMER_AVAILABLE K, t', [])))"
proof -
  have "filled 0 t" using assms(2) by (simp add: fresh_def)
  then obtain t' fx where run: "register_all K rs t = Inr (map word_of_nat [0..<length rs], t', fx)"
    and f': "filled (length rs) t'" and n': "numberOfEvents t' = numberOfEvents t"
    using register_all_fills [OF assms(1), of 0 t rs] assms(3,4) by auto
  have d: "distinct (map word_of_nat [0..<length rs] :: int8_t list)"
    using assms(4) by (rule distinct_indices)
  have r: "\<forall>i \<in> set (map word_of_nat [0..<length rs] :: int8_t list).
             0 \<le> sint i \<and> sint i < uint (numberOfEvents t)"
  proof
    fix i :: int8_t assume "i \<in> set (map word_of_nat [0..<length rs])"
    then obtain k where k: "k < length rs" and i: "i = word_of_nat k" by auto
    have "k < 128" using k assms(4) by simp
    then have "sint i = int k" by (simp add: i sint_index)
    moreover have "int k < uint (numberOfEvents t)"
      using k assms(3) by (intro int_less_uint) simp
    ultimately show "0 \<le> sint i \<and> sint i < uint (numberOfEvents t)" by simp
  qed
  have e: "length rs = unat (numberOfEvents t) \<and> length rs \<le> 127 \<longrightarrow>
             (\<forall>r now. register K r now t' = Inr (NO_TIMER_AVAILABLE K, t', []))"
  proof (intro impI allI)
    fix r now assume h: "length rs = unat (numberOfEvents t) \<and> length rs \<le> 127"
    then have "filled (unat (numberOfEvents t')) t'" "unat (numberOfEvents t') \<le> 127"
      using f' n' by simp_all
    then show "register K r now t' = Inr (NO_TIMER_AVAILABLE K, t', [])"
      by (rule register_exhausted [OF assms(1)])
  qed
  show ?thesis using run f' d r e by blast
qed

lemma registrations_claim_lowest_slots_example:
  "constants_ok K0 \<and> fresh (fst (Timer_sized 2 heap0))
   \<and> (\<exists>t' fx.
        register_all K0 [(0, After 1000 7 0), (5, Pulse 13 500 1)] (fst (Timer_sized 2 heap0))
          = Inr ([0, 1], t', fx)
        \<and> register K0 (Every 10 7 3 0) 9 t' = Inr (- 1, t', []))"
proof -
  let ?rs = "[(0, After 1000 7 0), (5, Pulse 13 500 1)] :: (ulong \<times> registration) list"
  let ?t = "fst (Timer_sized 2 heap0)"
  have l: "length ?rs \<le> unat (numberOfEvents ?t)" "length ?rs \<le> 128"
    by (simp_all add: Timer_sized_capacity)
  have u: "map word_of_nat [0..<length ?rs] = ([0, 1] :: int8_t list)"
    by (simp add: upt_rec)
  have full: "length ?rs = unat (numberOfEvents ?t) \<and> length ?rs \<le> 127"
    by (simp add: Timer_sized_capacity)
  obtain ids t' fx where run: "register_all K0 ?rs ?t = Inr (ids, t', fx)"
    and ids: "ids = map word_of_nat [0..<length ?rs]"
    and ex: "length ?rs = unat (numberOfEvents ?t) \<and> length ?rs \<le> 127 \<longrightarrow>
               (\<forall>r now. register K0 r now t' = Inr (NO_TIMER_AVAILABLE K0, t', []))"
    using registrations_claim_lowest_slots [OF K0_ok Timer_sized_fresh l(1) l(2)] by blast
  have "\<forall>r now. register K0 r now t' = Inr (NO_TIMER_AVAILABLE K0, t', [])"
    using ex full by (rule mp)
  then have "register K0 (Every 10 7 3 0) 9 t' = Inr (NO_TIMER_AVAILABLE K0, t', [])"
    by blast
  moreover have "NO_TIMER_AVAILABLE K0 = - 1" by (simp add: K0_def)
  ultimately have last: "register K0 (Every 10 7 3 0) 9 t' = Inr (- 1, t', [])"
    by (simp only:)
  have "register_all K0 ?rs ?t = Inr ([0, 1], t', fx)"
    using run ids u by (simp only:)
  then show ?thesis
    using last K0_ok Timer_sized_fresh by blast
qed

text \<open>
  Claim C1. On a fresh scheduler of capacity \<open>N\<close>, successive registrations return distinct
  indices in \<open>[0, N-1]\<close>, lowest free slot first, and the registration after the \<open>N\<close>-th
  returns \<^verbatim>\<open>NO_TIMER_AVAILABLE\<close> and changes nothing. \<^verbatim>\<open>findFreeEventIndex\<close> ends with
  \<^verbatim>\<open>return NO_TIMER_AVAILABLE\<close> for this, but counts the slots in an \<^verbatim>\<open>int8_t\<close> against
  a capacity that is a \<^verbatim>\<open>byte\<close>. On the scheduler built by \<^verbatim>\<open>Timer(128)\<close> the first 128
  registrations take the slots 0 to 127; in the 129th the counter steps from 127 to -128,
  which is still below the capacity, and the scan reads \<^verbatim>\<open>_events[-128]\<close>, outside the
  table, instead of reaching that return.
\<close>

theorem registration_129_reads_outside_table:
  "register_all K0 (replicate 129 (0, After 1000 7 0)) (fst (Timer_sized 128 heap0))
     = Inl OutOfBounds"
proof -
  have "filled 0 (fst (Timer_sized 128 heap0))"
    using Timer_sized_fresh by (simp add: fresh_def)
  then show ?thesis
    by (rule register_all_wraps [OF K0_ok]) (simp_all add: Timer_sized_capacity)
qed

section \<open>Registration on a full table\<close>

text \<open>
  Where the capacity is at most 127: on a scheduler whose slots are all occupied, each of the
  seven registration operations returns \<^verbatim>\<open>NO_TIMER_AVAILABLE\<close> and has done nothing: the
  scheduler is the one before the call and no pin has been written.
\<close>

lemma full_table_registration_has_no_effect:
  assumes "constants_ok K" and "Timer_ok t" and "list_all occupied (events t)"
    and "unat (numberOfEvents t) \<le> 127"
  shows "every K per cb rc ctx now t = Inr (NO_TIMER_AVAILABLE K, t, [])
       \<and> every_forever K per cb ctx now t = Inr (NO_TIMER_AVAILABLE K, t, [])
       \<and> after K per cb ctx now t = Inr (NO_TIMER_AVAILABLE K, t, [])
       \<and> oscillate K pn per v rc now t = Inr (NO_TIMER_AVAILABLE K, t, [])
       \<and> oscillate_forever K pn per v now t = Inr (NO_TIMER_AVAILABLE K, t, [])
       \<and> pulse K pn per v now t = Inr (NO_TIMER_AVAILABLE K, t, [])
       \<and> pulseImmediate K pn per v now t = Inr (NO_TIMER_AVAILABLE K, t, [])"
proof -
  have f: "filled (unat (numberOfEvents t)) t"
    using assms(2,3) by (simp add: filled_def Timer_ok_def)
  note ex = register_exhausted [OF assms(1) f assms(4)]
  show ?thesis
    using ex [of "Every per cb rc ctx" now] ex [of "Every_forever per cb ctx" now]
      ex [of "After per cb ctx" now] ex [of "Oscillate pn per v rc" now]
      ex [of "Oscillate_forever pn per v" now] ex [of "Pulse pn per v" now]
      ex [of "PulseImmediate pn per v" now]
    by simp
qed

lemma full_table_registration_has_no_effect_example:
  "constants_ok K0 \<and> Timer_ok Timer_full \<and> list_all occupied (events Timer_full)
   \<and> unat (numberOfEvents Timer_full) \<le> 127
   \<and> every K0 500 7 3 0 99 Timer_full = Inr (- 1, Timer_full, [])
   \<and> oscillate K0 13 500 1 3 99 Timer_full = Inr (- 1, Timer_full, [])
   \<and> pulseImmediate K0 13 500 1 99 Timer_full = Inr (- 1, Timer_full, [])"
proof -
  have ok: "Timer_ok Timer_full" by (simp add: Timer_ok_def Timer_full_def)
  have occ: "list_all occupied (events Timer_full)"
    by (simp add: Timer_full_def occupied_def Event_periodic_def)
  have n: "unat (numberOfEvents Timer_full) \<le> 127" by (simp add: Timer_full_def)
  have k: "NO_TIMER_AVAILABLE K0 = - 1" by (simp add: K0_def)
  show ?thesis
    using full_table_registration_has_no_effect [OF K0_ok ok occ n, of 500 7 3 0 99 13 1]
    by (simp add: K0_ok ok occ n k)
qed

text \<open>
  The full table of capacity 128 is the one that 128 calls of \<^verbatim>\<open>every(1000, 7, 0)\<close> at
  time 0 leave behind on a fresh scheduler.
\<close>

lemma partly_filled:
  "k \<le> 128 \<Longrightarrow>
   filled k \<lparr>storage = Heap_block 0,
             events = replicate k Event_periodic @ replicate (128 - k) Event_cleared,
             numberOfEvents = 128\<rparr>"
  by (simp add: filled_def Timer_ok_def occupied_def Event_periodic_def Event_cleared_def
      list_all_length)

lemma claim_next_of_128:
  assumes "k < 128"
  shows "every_forever K0 1000 7 0 0
           \<lparr>storage = Heap_block 0,
            events = replicate k Event_periodic @ replicate (128 - k) Event_cleared,
            numberOfEvents = 128\<rparr>
         = Inr (word_of_nat k,
                \<lparr>storage = Heap_block 0,
                 events = replicate (Suc k) Event_periodic
                            @ replicate (128 - Suc k) Event_cleared,
                 numberOfEvents = 128\<rparr>, [])"
proof -
  let ?t = "\<lparr>storage = Heap_block 0,
             events = replicate k Event_periodic @ replicate (128 - k) Event_cleared,
             numberOfEvents = 128\<rparr>"
  have f: "filled k ?t" using assms by (intro partly_filled) simp
  have n: "k < unat (numberOfEvents ?t)" using assms by simp
  have r: "replicate (128 - k) Event_cleared = Event_cleared # replicate (128 - Suc k) Event_cleared"
    using assms by (simp add: Suc_diff_Suc flip: replicate_Suc)
  have e: "Event_cleared\<lparr>eventType := EVENT_EVERY, period := 1000, repeatCount := - 1,
             callback := 7, lastEventTime := 0, count := 0, context_ptr := 0\<rparr> = Event_periodic"
    by (simp add: Event_periodic_def Event_cleared_def)
  have l: "(replicate k Event_periodic @ replicate (128 - k) Event_cleared)[k := Event_periodic]
           = replicate (Suc k) Event_periodic @ replicate (128 - Suc k) Event_cleared"
    by (simp add: r list_update_append replicate_append_same)
  have x: "events ?t ! k = Event_cleared"
    using assms by (simp add: nth_append)
  have "every K0 1000 7 (- 1) 0 0 ?t
          = Inr (word_of_nat k, ?t\<lparr>events := (events ?t)[k := Event_periodic]\<rparr>, [])"
    using every_claims [OF K0_ok f n assms, of 1000 7 "- 1" 0 0] by (simp only: x e)
  moreover have "?t\<lparr>events := (events ?t)[k := Event_periodic]\<rparr>
          = \<lparr>storage = Heap_block 0,
             events = replicate (Suc k) Event_periodic @ replicate (128 - Suc k) Event_cleared,
             numberOfEvents = 128\<rparr>"
    using l by simp
  ultimately show ?thesis by (simp only: every_forever_def)
qed

lemma fill_128:
  "k + m \<le> 128 \<Longrightarrow>
   register_all K0 (replicate m (0, Every_forever 1000 7 0))
     \<lparr>storage = Heap_block 0,
      events = replicate k Event_periodic @ replicate (128 - k) Event_cleared,
      numberOfEvents = 128\<rparr>
   = Inr (map word_of_nat [k..<k + m],
          \<lparr>storage = Heap_block 0,
           events = replicate (k + m) Event_periodic @ replicate (128 - (k + m)) Event_cleared,
           numberOfEvents = 128\<rparr>, [])"
proof (induction m arbitrary: k)
  case 0
  then show ?case by simp
next
  case (Suc m)
  then have k: "k < 128" and rest: "Suc k + m \<le> 128" by simp_all
  let ?x = "(0, Every_forever 1000 7 0) :: ulong \<times> registration"
  have u: "[k..<Suc (k + m)] = k # [Suc k..<Suc (k + m)]"
    using upt_conv_Cons [of k "Suc (k + m)"] by simp
  have step: "register K0 (Every_forever 1000 7 0) 0
           \<lparr>storage = Heap_block 0,
            events = replicate k Event_periodic @ replicate (128 - k) Event_cleared,
            numberOfEvents = 128\<rparr>
         = Inr (word_of_nat k,
                \<lparr>storage = Heap_block 0,
                 events = replicate (Suc k) Event_periodic
                            @ replicate (128 - Suc k) Event_cleared,
                 numberOfEvents = 128\<rparr>, [])"
    by (simp only: register.simps claim_next_of_128 [OF k])
  note ih = Suc.IH [OF rest]
  have rs: "replicate (Suc m) ?x = ?x # replicate m ?x" by simp
  have "register_all K0 (replicate (Suc m) ?x)
     \<lparr>storage = Heap_block 0,
      events = replicate k Event_periodic @ replicate (128 - k) Event_cleared,
      numberOfEvents = 128\<rparr>
   = Inr (word_of_nat k # map word_of_nat [Suc k..<Suc k + m],
          \<lparr>storage = Heap_block 0,
           events = replicate (Suc k + m) Event_periodic
                      @ replicate (128 - (Suc k + m)) Event_cleared,
           numberOfEvents = 128\<rparr>, [] @ [])"
    by (simp only: rs register_all.simps step ih sum.case prod.case)
  then show ?case
    by (simp only: add_Suc add_Suc_right u list.map append_Nil)
qed

lemma Timer_full_128_reached:
  "register_all K0 (replicate 128 (0, Every_forever 1000 7 0)) (fst (Timer_sized 128 heap0))
     = Inr (map word_of_nat [0..<128], Timer_full_128, [])"
  using fill_128 [of 0 128]
  by (simp add: Timer_sized_def malloc_def heap0_def Timer_full_128_def)

text \<open>
  Claim C10. When no free slot exists, every registration operation returns
  \<^verbatim>\<open>NO_TIMER_AVAILABLE\<close> before any effect. Each operation does return at once when
  \<^verbatim>\<open>findFreeEventIndex\<close> reports that sentinel, but on a full table of capacity 128 the scan
  does not report it: its \<^verbatim>\<open>int8_t\<close> counter steps from 127 to -128, still below the \<^verbatim>\<open>byte\<close>
  capacity, and \<^verbatim>\<open>_events[-128]\<close> is read, outside the table. The table is the one that 128
  calls of \<^verbatim>\<open>every(1000, 7, 0)\<close> leave behind on the scheduler built by \<^verbatim>\<open>Timer(128)\<close>.
\<close>

theorem full_table_128_registration_faults:
  "register_all K0 (replicate 128 (0, Every_forever 1000 7 0)) (fst (Timer_sized 128 heap0))
     = Inr (map word_of_nat [0..<128], Timer_full_128, [])
   \<and> list_all occupied (events Timer_full_128)
   \<and> oscillate K0 13 500 1 3 99 Timer_full_128 = Inl OutOfBounds"
proof -
  have occ: "list_all occupied (events Timer_full_128)"
    by (simp add: Timer_full_128_def occupied_def Event_periodic_def list_all_length)
  have "findFreeEventIndex K0 Timer_full_128 = Inl OutOfBounds"
    using occ by (intro find_wrap) (simp_all add: Timer_full_128_def)
  then have "oscillate K0 13 500 1 3 99 Timer_full_128 = Inl OutOfBounds"
    by (simp add: oscillate_def)
  then show ?thesis using occ Timer_full_128_reached by (simp only: simp_thms)
qed

section \<open>Cancellation\<close>

text \<open>
  Claim C2. An id is an \<^verbatim>\<open>int8_t\<close>. On a scheduler whose table has its declared size: for
  every id with \<open>0 \<le> id < capacity\<close>, \<^verbatim>\<open>stop(id)\<close> returns \<^verbatim>\<open>TIMER_NOT_AN_EVENT\<close> and sets the kind of that
  slot to \<open>EVENT_NONE\<close>, whatever the slot held, changing nothing else; for every other id
  it returns the id and the scheduler unchanged; in particular so for the (negative)
  \<^verbatim>\<open>NO_TIMER_AVAILABLE\<close>.
\<close>

theorem stop_retires_or_passes:
  assumes "Timer_ok t"
  shows "(0 \<le> sint i \<and> sint i < uint (numberOfEvents t) \<longrightarrow>
            stop K i t = Inr (TIMER_NOT_AN_EVENT K,
                              slot_update t i ((slot t i)\<lparr>eventType := EVENT_NONE\<rparr>))
            \<and> eventType (slot (slot_update t i ((slot t i)\<lparr>eventType := EVENT_NONE\<rparr>)) i)
                = EVENT_NONE)
       \<and> (\<not> (0 \<le> sint i \<and> sint i < uint (numberOfEvents t)) \<longrightarrow> stop K i t = Inr (i, t))
       \<and> (constants_ok K \<longrightarrow>
            stop K (NO_TIMER_AVAILABLE K) t = Inr (NO_TIMER_AVAILABLE K, t))"
proof (intro conjI impI)
  assume r: "0 \<le> sint i \<and> sint i < uint (numberOfEvents t)"
  then have b: "in_bounds t i" using assms by (simp add: in_range_in_bounds)
  show "stop K i t = Inr (TIMER_NOT_AN_EVENT K,
          slot_update t i ((slot t i)\<lparr>eventType := EVENT_NONE\<rparr>))"
    using r b by (simp add: stop_def)
  show "eventType (slot (slot_update t i ((slot t i)\<lparr>eventType := EVENT_NONE\<rparr>)) i) = EVENT_NONE"
    using b by (simp add: slot_slot_update)
next
  assume "\<not> (0 \<le> sint i \<and> sint i < uint (numberOfEvents t))"
  then show "stop K i t = Inr (i, t)" by (auto simp: stop_def)
next
  assume "constants_ok K"
  then show "stop K (NO_TIMER_AVAILABLE K) t = Inr (NO_TIMER_AVAILABLE K, t)"
    by (simp add: stop_def constants_ok_def)
qed

theorem stop_retires_or_passes_witness:
  "Timer_ok Timer_busy \<and> constants_ok K0
   \<and> eventType (slot Timer_busy 0) = EVENT_EVERY
   \<and> stop K0 0 Timer_busy
       = Inr (- 2, slot_update Timer_busy 0 ((slot Timer_busy 0)\<lparr>eventType := EVENT_NONE\<rparr>))
   \<and> eventType (slot (slot_update Timer_busy 0 ((slot Timer_busy 0)\<lparr>eventType := EVENT_NONE\<rparr>)) 0)
       = EVENT_NONE
   \<and> stop K0 5 Timer_busy = Inr (5, Timer_busy)
   \<and> stop K0 (- 1) Timer_busy = Inr (- 1, Timer_busy)"
proof -
  have ok: "Timer_ok Timer_busy" by (simp add: Timer_ok_def Timer_busy_def)
  have n: "numberOfEvents Timer_busy = 2" by (simp add: Timer_busy_def)
  have k: "TIMER_NOT_AN_EVENT K0 = - 2" "NO_TIMER_AVAILABLE K0 = - 1" by (simp_all add: K0_def)
  have e: "eventType (slot Timer_busy 0) = EVENT_EVERY"
    by (simp add: slot_def Timer_busy_def Event_periodic_def)
  show ?thesis
    using stop_retires_or_passes [OF ok, of 0 K0] stop_retires_or_passes [OF ok, of 5 K0]
    by (simp add: ok K0_ok n k e)
qed

section \<open>The update pass\<close>

lemma numberOfEvents_slot_update [simp]:
  "numberOfEvents (slot_update t i e) = numberOfEvents t"
  by (simp add: slot_update_def)

lemma update_from_wraps:
  "128 \<le> unat (numberOfEvents t) \<Longrightarrow> k \<le> 128 \<Longrightarrow> d = 128 - k \<Longrightarrow>
   update_from now t (word_of_nat k) = Inl OutOfBounds"
proof (induction d arbitrary: k t)
  case 0
  then have k: "k = 128" by simp
  have "sint (word_of_nat 128 :: int8_t) < uint (numberOfEvents t)"
    by (rule less_le_trans [of _ 0]) simp_all
  moreover have "\<not> in_bounds t (word_of_nat 128)" by (simp add: in_bounds_def)
  ultimately show ?case
    unfolding k
    by (simp only: update_from.simps [of now t "word_of_nat 128"] if_True if_False simp_thms)
next
  case (Suc d)
  then have k: "k < 128" and d: "d = 128 - Suc k" by simp_all
  have lt: "int k < uint (numberOfEvents t)"
    using Suc.prems(1) k by (intro int_less_uint) simp
  let ?t1 = "slot_update t (word_of_nat k) (fst (update_slot now (slot t (word_of_nat k))))"
  have "update_from now ?t1 (word_of_nat (Suc k)) = Inl OutOfBounds"
    using Suc.prems(1) k d by (intro Suc.IH) simp_all
  then have rec: "update_from now ?t1 (word_of_nat k + 1) = Inl OutOfBounds"
    by (simp only: index_Suc)
  show ?case
    using lt k rec
    by (subst update_from.simps) (simp add: sint_index)
qed

lemma update_from_pass:
  "length (events t) = unat (numberOfEvents t) \<Longrightarrow> unat (numberOfEvents t) \<le> 127 \<Longrightarrow>
   k \<le> unat (numberOfEvents t) \<Longrightarrow> d = unat (numberOfEvents t) - k \<Longrightarrow>
   update_from now t (word_of_nat k) =
     Inr (t\<lparr>events := take k (events t) @ map (\<lambda>e. fst (update_slot now e)) (drop k (events t))\<rparr>,
          concat (map (\<lambda>e. snd (update_slot now e)) (drop k (events t))))"
proof (induction d arbitrary: k t)
  case 0
  then have k: "k = unat (numberOfEvents t)" by simp
  have s: "sint (word_of_nat k :: int8_t) = int k"
    using 0 by (intro sint_index) simp
  have "\<not> int k < uint (numberOfEvents t)" by (simp add: k)
  then show ?case
    using 0 s by (subst update_from.simps) simp
next
  case (Suc d)
  then have k: "k < unat (numberOfEvents t)" "k < 128" "k < length (events t)" by simp_all
  have lt: "int k < uint (numberOfEvents t)" using k(1) by (rule int_less_uint)
  let ?e = "fst (update_slot now (events t ! k))"
  let ?t1 = "t\<lparr>events := (events t)[k := ?e]\<rparr>"
  have t1: "slot_update t (word_of_nat k) (fst (update_slot now (events t ! k))) = ?t1"
    using k(2) by (simp add: slot_update_index)
  have "update_from now ?t1 (word_of_nat (Suc k)) =
     Inr (?t1\<lparr>events := take (Suc k) (events ?t1)
             @ map (\<lambda>e. fst (update_slot now e)) (drop (Suc k) (events ?t1))\<rparr>,
          concat (map (\<lambda>e. snd (update_slot now e)) (drop (Suc k) (events ?t1))))"
    using Suc.prems k by (intro Suc.IH) simp_all
  moreover have "take (Suc k) (events ?t1) = take k (events t) @ [?e]"
    using k(3) by (simp add: take_Suc_conv_app_nth)
  moreover have "drop (Suc k) (events ?t1) = drop (Suc k) (events t)"
    by simp
  moreover have dr: "drop k (events t) = events t ! k # drop (Suc k) (events t)"
    using k(3) by (simp add: Cons_nth_drop_Suc)
  ultimately have rec: "update_from now ?t1 (word_of_nat k + 1) =
     Inr (t\<lparr>events := take k (events t)
             @ ?e # map (\<lambda>e. fst (update_slot now e)) (drop (Suc k) (events t))\<rparr>,
          concat (map (\<lambda>e. snd (update_slot now e)) (drop (Suc k) (events t))))"
    by (simp add: index_Suc)
  show ?case
    using lt k
    by (subst update_from.simps)
       (simp add: sint_index in_bounds_index t1 rec slot_index dr)
qed

lemma Timer_update_pass:
  assumes "Timer_ok t" and "unat (numberOfEvents t) \<le> 127"
  shows "Timer_update now t =
     Inr (t\<lparr>events := map (\<lambda>e. fst (update_slot now e)) (events t)\<rparr>,
          concat (map (\<lambda>e. snd (update_slot now e)) (events t)))"
  using assms update_from_pass [of t 0 "unat (numberOfEvents t)" now]
  by (simp add: Timer_update_def Timer_ok_def)

lemma Timer_update_completed:
  assumes "Timer_ok t" and "Timer_update now t = Inr (t', fx)"
  shows "unat (numberOfEvents t) \<le> 127
       \<and> t' = t\<lparr>events := map (\<lambda>e. fst (update_slot now e)) (events t)\<rparr>
       \<and> fx = concat (map (\<lambda>e. snd (update_slot now e)) (events t))"
proof -
  have n: "unat (numberOfEvents t) \<le> 127"
  proof (rule ccontr)
    assume "\<not> unat (numberOfEvents t) \<le> 127"
    then have "update_from now t (word_of_nat 0) = Inl OutOfBounds"
      by (intro update_from_wraps [where d = 128]) simp_all
    then show False using assms(2) by (simp add: Timer_update_def)
  qed
  then show ?thesis
    using assms(2) Timer_update_pass [OF assms(1) n, of now] by simp
qed

lemma pass_slot:
  assumes "Timer_ok t" and "Timer_update now t = Inr (t', fx)" and "k < unat (numberOfEvents t)"
  shows "events t' ! k = fst (update_slot now (events t ! k))"
  using Timer_update_completed [OF assms(1,2)] assms(1,3) by (simp add: Timer_ok_def)

lemma update_slot_retired: "eventType e = EVENT_NONE \<Longrightarrow> update_slot now e = (e, [])"
  by (simp add: update_slot_def)





section \<open>The update pass with callbacks\<close>




text \<open>
  A due slot with repeat count 0 is retired without firing, whatever the callbacks are, and
  a positive repeat count that the decrement brings to 0 retires the slot.
\<close>

lemma due_zero_count_retired_in:
  "is_due now (slot t i) \<Longrightarrow> repeatCount (slot t i) = 0 \<Longrightarrow>
   Event_update_in cbs now t i = Inr (slot_update t i ((slot t i)\<lparr>eventType := EVENT_NONE\<rparr>), [])"
  by (simp add: Event_update_in_def)

lemma countdown_to_zero_retires:
  "0 < sint (repeatCount e) \<Longrightarrow> repeatCount e - 1 = 0 \<Longrightarrow>
   eventType (countdown e) = EVENT_NONE \<and> repeatCount (countdown e) = 0"
  by (simp add: countdown_def)















section \<open>Elapsed time\<close>

lemma elapsed_exact:
  assumes "d < 2 ^ 32" and "now = lastEventTime e + word_of_nat d"
  shows "elapsed now e = word_of_nat d" and "unat (elapsed now e) = d"
proof -
  show "elapsed now e = word_of_nat d" by (simp add: elapsed_def assms(2))
  then show "unat (elapsed now e) = d" using assms(1) by (simp add: unat_of_nat)
qed

lemma is_due_iff:
  assumes "d < 2 ^ 32" and "now = lastEventTime e + word_of_nat d"
  shows "is_due now e \<longleftrightarrow> unat (period e) \<le> d"
proof -
  have "is_due now e \<longleftrightarrow> period e \<le> elapsed now e"
    by (simp add: is_due_def not_less)
  also have "\<dots> \<longleftrightarrow> unat (period e) \<le> unat (elapsed now e)"
    by (rule word_le_nat_alt)
  finally show ?thesis by (simp only: elapsed_exact(2) [OF assms])
qed

lemma fired_time:
  "occupied e \<Longrightarrow> is_due now e \<Longrightarrow> repeatCount e \<noteq> 0 \<Longrightarrow>
   lastEventTime (fst (update_slot now e)) = now"
  by (cases "eventType e")
     (simp_all add: update_slot_def Event_update_def occupied_def countdown_def fire_def)

text \<open>
  Claim C7. In an \<^verbatim>\<open>update()\<close> pass the elapsed time of an occupied slot is
  \<^verbatim>\<open>now() - lastEventTime\<close> in unsigned 32-bit arithmetic. If \<open>d\<close> milliseconds, fewer than
  \<open>2^32\<close>, have really passed since the slot's last event, the clock reads
  \<open>lastEventTime + d\<close> modulo \<open>2^32\<close>, possibly a smaller number than \<open>lastEventTime\<close>; the
  computed elapsed time is nevertheless exactly \<open>d\<close>, the slot is found due exactly when
  \<open>period \<le> d\<close>, and a slot with a nonzero repeat count fires in this pass if it is due
  (its \<open>lastEventTime\<close> becomes \<open>now\<close>) and is left as it was if it is not.
\<close>

theorem update_detects_due_across_wraparound:
  assumes "Timer_ok t" and "Timer_update now t = Inr (t', fx)"
    and "k < unat (numberOfEvents t)" and "occupied (events t ! k)"
    and "d < 2 ^ 32" and "now = lastEventTime (events t ! k) + word_of_nat d"
  shows "unat (elapsed now (events t ! k)) = d
       \<and> (is_due now (events t ! k) \<longleftrightarrow> unat (period (events t ! k)) \<le> d)
       \<and> events t' ! k = fst (Event_update now (events t ! k))
       \<and> (unat (period (events t ! k)) \<le> d \<and> repeatCount (events t ! k) \<noteq> 0 \<longrightarrow>
            lastEventTime (events t' ! k) = now)
       \<and> (d < unat (period (events t ! k)) \<and> repeatCount (events t ! k) \<noteq> 0 \<longrightarrow>
            events t' ! k = events t ! k)"
proof -
  note slot = pass_slot [OF assms(1,2,3)]
  note due = is_due_iff [OF assms(5,6)]
  have a: "unat (elapsed now (events t ! k)) = d" by (rule elapsed_exact(2) [OF assms(5,6)])
  have b: "events t' ! k = fst (Event_update now (events t ! k))"
    using assms(4) by (simp add: slot update_slot_def occupied_def)
  have c: "unat (period (events t ! k)) \<le> d \<and> repeatCount (events t ! k) \<noteq> 0 \<longrightarrow>
            lastEventTime (events t' ! k) = now"
    using fired_time [OF assms(4), of now] due by (simp add: slot)
  have e: "d < unat (period (events t ! k)) \<and> repeatCount (events t ! k) \<noteq> 0 \<longrightarrow>
            events t' ! k = events t ! k"
    using due by (auto simp: b Event_update_def)
  show ?thesis using a b c e due by blast
qed

theorem update_detects_due_across_wraparound_witness:
  "Timer_ok Timer_near_wrap \<and> occupied (events Timer_near_wrap ! 0)
   \<and> lastEventTime (events Timer_near_wrap ! 0) = 4294967040
   \<and> (256 :: ulong) = 4294967040 + word_of_nat 512
   \<and> unat (period (events Timer_near_wrap ! 0)) \<le> 512
   \<and> (\<exists>t'. Timer_update 256 Timer_near_wrap = Inr (t', [Callback 7 0])
          \<and> unat (elapsed 256 (events Timer_near_wrap ! 0)) = 512
          \<and> is_due 256 (events Timer_near_wrap ! 0)
          \<and> lastEventTime (events t' ! 0) = 256)"
proof -
  have ok: "Timer_ok Timer_near_wrap" by (simp add: Timer_ok_def Timer_near_wrap_def)
  have n: "0 < unat (numberOfEvents Timer_near_wrap)" by (simp add: Timer_near_wrap_def)
  have e: "occupied (events Timer_near_wrap ! 0)"
    "lastEventTime (events Timer_near_wrap ! 0) = 4294967040"
    "unat (period (events Timer_near_wrap ! 0)) \<le> 512"
    "repeatCount (events Timer_near_wrap ! 0) \<noteq> 0"
    by (simp_all add: Timer_near_wrap_def occupied_def Event_periodic_def Event_cleared_def)
  have w: "(256 :: ulong) = lastEventTime (events Timer_near_wrap ! 0) + word_of_nat 512"
    by (simp add: e(2))
  have d: "(512 :: nat) < 2 ^ 32" by simp
  obtain t' where run: "Timer_update 256 Timer_near_wrap = Inr (t', [Callback 7 0])"
    using Timer_update_pass [OF ok, of 256]
    by (simp add: Timer_near_wrap_def update_slot_def Event_update_def is_due_def elapsed_def
        Event_periodic_def Event_cleared_def fire_def)
  have w0: "(256 :: ulong) = 4294967040 + word_of_nat 512" by simp
  have due: "is_due 256 (events Timer_near_wrap ! 0)"
    using update_detects_due_across_wraparound [OF ok run n e(1) d w] e(3) by blast
  show ?thesis
    using update_detects_due_across_wraparound [OF ok run n e(1) d w] e ok run w0 due
    by blast
qed

section \<open>Immediate pulses\<close>

lemma oscillate_index_in_range:
  assumes "oscillate K pn per v rc now t = Inr (i, t', fx)" and "i \<noteq> NO_TIMER_AVAILABLE K"
  shows "0 \<le> sint i \<and> sint i < uint (numberOfEvents t') \<and> in_bounds t' i"
proof -
  note s = oscillate_slot [OF assms]
  have "sint i < uint (numberOfEvents t)"
    using s assms(2) scan_result_below_capacity [of K t 0 i]
    by (simp add: findFreeEventIndex_def)
  then show ?thesis
    using s by (simp add: in_bounds_def)
qed

lemma pulse_slot_fires_once:
  assumes "eventType e = EVENT_OSCILLATE" and "repeatCount e = 1" and "is_due now e"
  shows "update_slot now e =
           (e\<lparr>lastEventTime := now, pinState := toggle (pinState e), count := count e + 1,
              repeatCount := 0, eventType := EVENT_NONE\<rparr>,
            [DigitalWrite (pin e) (toggle (pinState e))])"
  using assms by (simp add: update_slot_def Event_update_def fire_def countdown_def)

text \<open>
  Claim C4. Every call of \<^verbatim>\<open>pulseImmediate(pin, period, pulseValue)\<close> that returns an index
  has written \<open>pulseValue\<close> to the pin, and the claimed slot holds an oscillation with
  \<open>pinState = pulseValue\<close> and a repeat count of exactly 1 (not the 2 that \<^verbatim>\<open>oscillate\<close> stores
  for one cycle). The slot is due exactly when \<open>period \<le> now' - now\<close>; before that an update
  leaves it alone; the first update that finds it due writes the opposite level to the pin
  and retires the slot, after which every update skips it: there is no further transition.
\<close>

theorem pulseImmediate_single_transition:
  assumes "pulseImmediate K pn per pulseValue now t = Inr (i, t', fx)"
    and "i \<noteq> NO_TIMER_AVAILABLE K"
  shows "fx = [DigitalWrite pn pulseValue]
       \<and> eventType (slot t' i) = EVENT_OSCILLATE
       \<and> pin (slot t' i) = pn
       \<and> pinState (slot t' i) = pulseValue
       \<and> repeatCount (slot t' i) = 1
       \<and> (\<forall>now'. is_due now' (slot t' i) \<longleftrightarrow> per \<le> now' - now)
       \<and> (\<forall>now'. \<not> is_due now' (slot t' i) \<longrightarrow> update_slot now' (slot t' i) = (slot t' i, []))
       \<and> (\<forall>now'. is_due now' (slot t' i) \<longrightarrow>
             snd (update_slot now' (slot t' i)) = [DigitalWrite pn (toggle pulseValue)]
           \<and> eventType (fst (update_slot now' (slot t' i))) = EVENT_NONE
           \<and> (\<forall>now''. update_slot now'' (fst (update_slot now' (slot t' i)))
                          = (fst (update_slot now' (slot t' i)), [])))"
proof -
  from assms(1) obtain t1 where osc: "oscillate K pn per pulseValue 1 now t = Inr (i, t1, fx)"
    by (auto simp: pulseImmediate_def split: sum.splits if_splits prod.splits)
  note r = oscillate_index_in_range [OF osc assms(2)]
  have t': "t' = slot_update t1 i ((slot t1 i)\<lparr>repeatCount := 1\<rparr>)"
    using assms(1) r by (simp add: pulseImmediate_def osc)
  note o = oscillate_slot [OF osc assms(2)]
  have b: "in_bounds t1 i" using r by simp
  let ?e = "slot t' i"
  have e: "?e = (slot t1 i)\<lparr>repeatCount := 1\<rparr>"
    by (simp add: t' slot_slot_update [OF b])
  have f: "fx = [DigitalWrite pn pulseValue]" "eventType ?e = EVENT_OSCILLATE" "pin ?e = pn"
    "pinState ?e = pulseValue" "repeatCount ?e = 1" "period ?e = per" "lastEventTime ?e = now"
    using o by (simp_all add: e)
  have due: "\<forall>now'. is_due now' ?e \<longleftrightarrow> per \<le> now' - now"
    by (simp add: is_due_def elapsed_def f not_less)
  have idle: "\<forall>now'. \<not> is_due now' ?e \<longrightarrow> update_slot now' ?e = (?e, [])"
    by (simp add: update_slot_def Event_update_def f(5))
  have fire: "\<forall>now'. is_due now' ?e \<longrightarrow>
             snd (update_slot now' ?e) = [DigitalWrite pn (toggle pulseValue)]
           \<and> eventType (fst (update_slot now' ?e)) = EVENT_NONE
           \<and> (\<forall>now''. update_slot now'' (fst (update_slot now' ?e))
                          = (fst (update_slot now' ?e), []))"
  proof (intro allI impI)
    fix now' assume d: "is_due now' ?e"
    note u = pulse_slot_fires_once [OF f(2) f(5) d]
    show "snd (update_slot now' ?e) = [DigitalWrite pn (toggle pulseValue)]
           \<and> eventType (fst (update_slot now' ?e)) = EVENT_NONE
           \<and> (\<forall>now''. update_slot now'' (fst (update_slot now' ?e))
                          = (fst (update_slot now' ?e), []))"
      by (simp add: u f(3,4) update_slot_retired)
  qed
  show ?thesis using f(1-5) due idle fire by blast
qed

theorem pulseImmediate_single_transition_witness:
  "\<exists>t'. pulseImmediate K0 13 500 1 100 Timer_busy = Inr (1, t', [DigitalWrite 13 1])
      \<and> (1 :: int8_t) \<noteq> NO_TIMER_AVAILABLE K0
      \<and> repeatCount (slot t' 1) = 1
      \<and> \<not> is_due 599 (slot t' 1) \<and> update_slot 599 (slot t' 1) = (slot t' 1, [])
      \<and> is_due 600 (slot t' 1)
      \<and> snd (update_slot 600 (slot t' 1)) = [DigitalWrite 13 0]
      \<and> eventType (fst (update_slot 600 (slot t' 1))) = EVENT_NONE
      \<and> update_slot 1100 (fst (update_slot 600 (slot t' 1)))
           = (fst (update_slot 600 (slot t' 1)), [])"
proof -
  have f: "filled 1 Timer_busy"
    by (simp add: filled_def Timer_ok_def Timer_busy_def occupied_def Event_periodic_def
        Event_cleared_def)
  have n: "1 < unat (numberOfEvents Timer_busy)" by (simp add: Timer_busy_def)
  obtain t' where call:
      "pulseImmediate K0 13 500 1 100 Timer_busy = Inr (1, t', [DigitalWrite 13 1])"
    using pulseImmediate_claims [OF K0_ok f n, of 13 500 1 100] by simp
  have ns: "(1 :: int8_t) \<noteq> NO_TIMER_AVAILABLE K0" by (simp add: K0_def)
  note th = pulseImmediate_single_transition [OF call ns]
  have d1: "\<not> is_due 599 (slot t' 1)" and d2: "is_due 600 (slot t' 1)"
    using th by simp_all
  have tg: "toggle 1 = 0" by (simp add: toggle_def)
  show ?thesis
    using th call ns d1 d2 by (simp add: tg)
qed

end
